theory Spec2Isabelle
  imports Main "HOL-Library.DAList"
begin

section \<open>Scheduler data model\<close>

text \<open>
  Go values that may be \<open>nil\<close> (pointers, maps, errors) are options. A Go string is a
  sequence of bytes, here a \<open>string\<close>.
\<close>

datatype error = Error string

datatype panic =
    NilDereference
  | AssignNilMap
  | CloseNilChannel
  | CloseClosedChannel

text \<open>
  A \<open>map[string]string\<close> value is \<open>nil\<close> or a reference to a map object; two values may
  refer to one object. The objects live in a heap, addressed by their position. A map
  object holds each key once.
\<close>

type_synonym gomap = "nat option"

type_synonym mapheap = "(string, string) alist list"

datatype ExposureType = HTTPExposure | HTTPSExposure (Cert: string)

fun Protocol :: "ExposureType \<Rightarrow> string" where
  "Protocol HTTPExposure = ''http''"
| "Protocol (HTTPSExposure c) = ''https''"

record Exposure =
  External :: bool
  Type :: ExposureType

text \<open>The type of \<open>Process.Image\<close>, \<open>image.Image\<close>, is a parameter.\<close>

record 'img Process =
  Process_Type :: string
  Image :: 'img
  Command :: "string list"
  Process_Env :: gomap
  Process_Labels :: gomap
  Process_Exposure :: "Exposure option"
  Instances :: nat
  MemoryLimit :: nat
  CPUShares :: nat
  Nproc :: nat

record 'img App =
  ID :: string
  Release :: string
  Name :: string
  App_Env :: gomap
  App_Labels :: gomap
  Processes :: "'img Process list"

section \<open>Merging environments and labels\<close>

text \<open>\<open>make(map[string]string)\<close>: a new, empty map object at an address not in use.\<close>

definition make_map :: "mapheap \<Rightarrow> nat \<times> mapheap" where
  "make_map h = (length h, h @ [DAList.empty])"

text \<open>
  The entries that \<open>for k, v := range env\<close> goes through: none for a \<open>nil\<close> map, and
  the entries of the object in some order otherwise (the order of the object's
  representation; every order is the representation of some object with these entries).
  An address outside the heap has no entries.
\<close>

definition range_map :: "mapheap \<Rightarrow> gomap \<Rightarrow> (string \<times> string) list" where
  "range_map h env =
     (case env of
        None \<Rightarrow> []
      | Some a \<Rightarrow> if a < length h then DAList.impl_of (h ! a) else [])"

text \<open>\<open>m[k] = v\<close>: an assignment to an entry of a \<open>nil\<close> map panics.\<close>

definition map_assign :: "gomap \<Rightarrow> string \<Rightarrow> string \<Rightarrow> mapheap \<Rightarrow> panic + mapheap" where
  "map_assign m k v h =
     (case m of
        None \<Rightarrow> Inl AssignNilMap
      | Some a \<Rightarrow> Inr (h[a := DAList.update k v (h ! a)]))"

text \<open>\<open>m[k]\<close>, read: a missing key and a \<open>nil\<close> map give no value.\<close>

definition map_get :: "mapheap \<Rightarrow> gomap \<Rightarrow> string \<Rightarrow> string option" where
  "map_get h m k =
     (case m of
        None \<Rightarrow> None
      | Some a \<Rightarrow> if a < length h then DAList.lookup (h ! a) k else None)"

text \<open>The inner loop of \<open>merge\<close>, over the entries of one map.\<close>

fun merge_entries :: "gomap \<Rightarrow> (string \<times> string) list \<Rightarrow> mapheap \<Rightarrow> panic + mapheap" where
  "merge_entries merged [] h = Inr h"
| "merge_entries merged ((k, v) # kvs) h =
     (case map_assign merged k v h of
        Inl p \<Rightarrow> Inl p
      | Inr h' \<Rightarrow> merge_entries merged kvs h')"

text \<open>The outer loop of \<open>merge\<close>, over its arguments from left to right.\<close>

fun merge_envs :: "gomap \<Rightarrow> gomap list \<Rightarrow> mapheap \<Rightarrow> panic + mapheap" where
  "merge_envs merged [] h = Inr h"
| "merge_envs merged (env # envs) h =
     (case merge_entries merged (range_map h env) h of
        Inl p \<Rightarrow> Inl p
      | Inr h' \<Rightarrow> merge_envs merged envs h')"

definition merge :: "gomap list \<Rightarrow> mapheap \<Rightarrow> panic + (gomap \<times> mapheap)" where
  "merge envs h =
     (let (a, h0) = make_map h; merged = Some a
      in case merge_envs merged envs h0 of
           Inl p \<Rightarrow> Inl p
         | Inr h' \<Rightarrow> Inr (merged, h'))"

text \<open>\<open>Env\<close> and \<open>Labels\<close> read a field through each pointer: a \<open>nil\<close> pointer panics.\<close>

definition Env :: "'img App option \<Rightarrow> 'img Process option \<Rightarrow> mapheap \<Rightarrow> panic + (gomap \<times> mapheap)" where
  "Env app process h =
     (case app of
        None \<Rightarrow> Inl NilDereference
      | Some a \<Rightarrow>
          (case process of
             None \<Rightarrow> Inl NilDereference
           | Some p \<Rightarrow> merge [App_Env a, Process_Env p] h))"

definition Labels :: "'img App option \<Rightarrow> 'img Process option \<Rightarrow> mapheap \<Rightarrow> panic + (gomap \<times> mapheap)" where
  "Labels app process h =
     (case app of
        None \<Rightarrow> Inl NilDereference
      | Some a \<Rightarrow>
          (case process of
             None \<Rightarrow> Inl NilDereference
           | Some p \<Rightarrow> merge [App_Labels a, Process_Labels p] h))"

text \<open>A map value of the program refers to an object of the heap, or is \<open>nil\<close>.\<close>

definition map_ok :: "mapheap \<Rightarrow> gomap \<Rightarrow> bool" where
  "map_ok h m = (case m of None \<Rightarrow> True | Some a \<Rightarrow> a < length h)"

section \<open>Status streams\<close>

record Status =
  Message :: string

definition Status_String :: "Status \<Rightarrow> string" where
  "Status_String s = Message s"

subsection \<open>Channels, the sink and the log\<close>

text \<open>
  A \<open>chan struct{}\<close> object: its capacity, the number of queued elements (an element
  carries no data) and whether it has been closed. Channel values are addresses into a
  heap of channel objects; an address outside the heap stands for the \<open>nil\<close> channel.
\<close>

record chan =
  cap :: nat
  buf :: nat
  closed :: bool

text \<open>
  An \<open>io.Writer\<close> is given by the error its \<open>Write\<close> returns (\<open>None\<close> is \<open>nil\<close>), from
  the payloads of the earlier calls and the payload of this one.
\<close>

type_synonym writer = "string list \<Rightarrow> string \<Rightarrow> error option"

text \<open>
  What a stream's methods act on besides the stream: the channel heap, the payloads that
  the sink's \<open>Write\<close> has been called with, in order, and the messages that
  \<open>logger.Warn\<close> has been called with, in order.
\<close>

record runtime =
  chans :: "chan list"
  writes :: "string list"
  warns :: "string list"

text \<open>\<open>make(chan struct{}, n)\<close>\<close>

definition make_chan :: "nat \<Rightarrow> runtime \<Rightarrow> nat \<times> runtime" where
  "make_chan n r =
     (length (chans r), r\<lparr>chans := chans r @ [\<lparr>cap = n, buf = 0, closed = False\<rparr>]\<rparr>)"

text \<open>\<open>close(c)\<close>: closing a closed channel panics, and so does closing \<open>nil\<close>.\<close>

definition close_chan :: "nat \<Rightarrow> runtime \<Rightarrow> panic + runtime" where
  "close_chan c r =
     (if c < length (chans r) then
        (if closed (chans r ! c) then Inl CloseClosedChannel
         else Inr (r\<lparr>chans := (chans r)[c := (chans r ! c)\<lparr>closed := True\<rparr>]\<rparr>))
      else Inl CloseNilChannel)"

text \<open>
  A receive \<open><-c\<close> that does not wait: it takes a queued element when there is one,
  succeeds on a closed channel with nothing queued and leaves it as it is, and is not
  ready (\<open>None\<close>) otherwise. The \<open>nil\<close> channel is never ready.
\<close>

definition try_recv :: "nat \<Rightarrow> runtime \<Rightarrow> runtime option" where
  "try_recv c r =
     (if c < length (chans r) then
        (if 0 < buf (chans r ! c) then
           Some (r\<lparr>chans := (chans r)[c := (chans r ! c)\<lparr>buf := buf (chans r ! c) - 1\<rparr>]\<rparr>)
         else if closed (chans r ! c) then Some r
         else None)
      else None)"

definition ready :: "nat \<Rightarrow> runtime \<Rightarrow> bool" where
  "ready c r = (try_recv c r \<noteq> None)"

subsection \<open>The JSON message stream\<close>

text \<open>
  The message that \<open>Publish\<close> builds: \<open>jsonmessage.JSONMessage{Status: status.Message}\<close>
  sets the field \<open>Status\<close> and no other. How a message is marshalled is a parameter
  \<open>marshal\<close> of the model. \<open>Encode\<close> of a \<open>json.Encoder\<close> on a writer calls \<open>Write\<close> once,
  with the marshalled value and a newline, and returns the error of that call.
\<close>

record JSONMessage =
  JSONMessage_Status :: string

definition Encode :: "(JSONMessage \<Rightarrow> string) \<Rightarrow> writer \<Rightarrow> JSONMessage \<Rightarrow> runtime \<Rightarrow> error option \<times> runtime" where
  "Encode marshal wr v r =
     (let b = marshal v @ [CHR 0x0A]
      in (wr (writes r) b, r\<lparr>writes := writes r @ [b]\<rparr>))"

text \<open>The embedded \<open>sync.Mutex\<close> is the field \<open>Mutex\<close>: whether it is locked.\<close>

record jsonmessageStatusStream =
  Mutex :: bool
  done_ch :: nat
  err :: "error option"
  w :: writer

type_synonym state = "jsonmessageStatusStream \<times> runtime"

definition NewJSONMessageStream :: "writer \<Rightarrow> runtime \<Rightarrow> state" where
  "NewJSONMessageStream wr r =
     (let (c, r') = make_chan 1 r
      in (\<lparr>Mutex = False, done_ch = c, err = None, w = wr\<rparr>, r'))"

text \<open>
  \<open>Publish\<close>: the \<open>select\<close> takes the receive from \<open>s.done\<close> when it is ready, logs a
  warning and returns \<open>nil\<close>; otherwise its \<open>default\<close> falls through to the encoder.
  The context only carries the logger.
\<close>

definition Publish :: "(JSONMessage \<Rightarrow> string) \<Rightarrow> Status \<Rightarrow> state \<Rightarrow> error option \<times> state" where
  "Publish marshal status st =
     (case st of (s, r) \<Rightarrow>
        (case try_recv (done_ch s) r of
           Some r' \<Rightarrow>
             (None, (s, r'\<lparr>warns := warns r' @ [''Publish called on a finalized stream'']\<rparr>))
         | None \<Rightarrow>
             (case Encode marshal (w s) \<lparr>JSONMessage_Status = Message status\<rparr> r of
                (e, r') \<Rightarrow> (e, (s, r')))))"

text \<open>How a call ends: it returns, it panics, or it never returns.\<close>

datatype 'a outcome = Returned 'a | Panicked panic | Blocked

text \<open>
  \<open>Done\<close>: \<open>Lock\<close> waits for ever on a locked mutex. When \<open>close\<close> panics, the deferred
  \<open>Unlock\<close> runs and the assignment to \<open>s.err\<close> does not.
\<close>

definition Done :: "error option \<Rightarrow> state \<Rightarrow> unit outcome \<times> state" where
  "Done e st =
     (case st of (s, r) \<Rightarrow>
        if Mutex s then (Blocked, (s, r))
        else
          (let s1 = s\<lparr>Mutex := True\<rparr>
           in case close_chan (done_ch s1) r of
                Inl p \<Rightarrow> (Panicked p, (s1\<lparr>Mutex := False\<rparr>, r))
              | Inr r' \<Rightarrow> (Returned (), (s1\<lparr>err := e, Mutex := False\<rparr>, r'))))"

text \<open>
  The body of \<open>Done\<close> in the two parts that another goroutine can come between:
  \<open>s.Lock(); defer s.Unlock(); close(s.done)\<close>, after which the mutex is held, and
  \<open>s.err = err\<close> with the deferred \<open>Unlock\<close>. \<open>Err\<close> and \<open>Wait\<close> take no lock, so a
  waiter can run on the state between the two.
\<close>

definition Done_close :: "state \<Rightarrow> unit outcome \<times> state" where
  "Done_close st =
     (case st of (s, r) \<Rightarrow>
        if Mutex s then (Blocked, (s, r))
        else
          (let s1 = s\<lparr>Mutex := True\<rparr>
           in case close_chan (done_ch s1) r of
                Inl p \<Rightarrow> (Panicked p, (s1\<lparr>Mutex := False\<rparr>, r))
              | Inr r' \<Rightarrow> (Returned (), (s1, r'))))"

definition Done_assign :: "error option \<Rightarrow> state \<Rightarrow> unit outcome \<times> state" where
  "Done_assign e st = (case st of (s, r) \<Rightarrow> (Returned (), (s\<lparr>err := e, Mutex := False\<rparr>, r)))"

definition Err :: "state \<Rightarrow> error option" where
  "Err st = err (fst st)"

definition Wait :: "state \<Rightarrow> nat" where
  "Wait st = done_ch (fst st)"

text \<open>A waiter's \<open><-c\<close> on a handle \<open>c\<close> that \<open>Wait\<close> gave it: it waits until \<open>c\<close> is ready.\<close>

definition recv :: "nat \<Rightarrow> state \<Rightarrow> unit outcome \<times> state" where
  "recv c st =
     (case st of (s, r) \<Rightarrow>
        (case try_recv c r of
           Some r' \<Rightarrow> (Returned (), (s, r'))
         | None \<Rightarrow> (Blocked, (s, r))))"

subsection \<open>Histories of a stream\<close>

text \<open>
  The calls that the publisher and the waiters make on one stream, in the order they
  take effect. A history goes on after a call that panics (from the state the deferred
  calls leave) or blocks (the caller waits, the others go on). A call is one step of a
  history; the state inside \<open>Done\<close> is the one that \<open>Done_close\<close> returns.
\<close>

datatype call = CallPublish Status | CallDone "error option" | CallErr | CallWait | CallRecv

fun is_Done :: "call \<Rightarrow> bool" where
  "is_Done (CallDone e) = True"
| "is_Done c = False"

fun step :: "(JSONMessage \<Rightarrow> string) \<Rightarrow> call \<Rightarrow> state \<Rightarrow> state" where
  "step marshal (CallPublish status) st = snd (Publish marshal status st)"
| "step marshal (CallDone e) st = snd (Done e st)"
| "step marshal CallErr st = st"
| "step marshal CallWait st = st"
| "step marshal CallRecv st = snd (recv (Wait st) st)"

fun run :: "(JSONMessage \<Rightarrow> string) \<Rightarrow> call list \<Rightarrow> state \<Rightarrow> state" where
  "run marshal [] st = st"
| "run marshal (c # cs) st = run marshal cs (step marshal c st)"

text \<open>The record that an open stream writes for a status.\<close>

definition record_of :: "(JSONMessage \<Rightarrow> string) \<Rightarrow> Status \<Rightarrow> string" where
  "record_of marshal status = marshal \<lparr>JSONMessage_Status = Message status\<rparr> @ [CHR 0x0A]"

text \<open>The statuses of the \<open>Publish\<close> calls of a history, in order.\<close>

fun published :: "call list \<Rightarrow> Status list" where
  "published [] = []"
| "published (CallPublish status # cs) = status # published cs"
| "published (c # cs) = published cs"

section \<open>Notions for the proofs\<close>

text \<open>All assignments of one loop, applied to the object.\<close>

fun assign_all :: "(string \<times> string) list \<Rightarrow> (string, string) alist \<Rightarrow> (string, string) alist" where
  "assign_all [] m = m"
| "assign_all ((k, v) # kvs) m = assign_all kvs (DAList.update k v m)"

text \<open>
  What holds of a stream made by \<open>NewJSONMessageStream wr r0\<close> between calls: the mutex
  is free, \<open>done\<close> is the channel made for it, nothing is queued on that channel, and
  the writer is \<open>wr\<close>.
\<close>

definition stream_inv :: "writer \<Rightarrow> runtime \<Rightarrow> state \<Rightarrow> bool" where
  "stream_inv wr r0 st =
     (case st of (s, r) \<Rightarrow>
        \<not> Mutex s \<and> done_ch s = length (chans r0) \<and> done_ch s < length (chans r) \<and>
        buf (chans r ! done_ch s) = 0 \<and> w s = wr)"

definition is_closed :: "state \<Rightarrow> bool" where
  "is_closed st = (case st of (s, r) \<Rightarrow> closed (chans r ! done_ch s))"

text \<open>
  The result of a merge of \<open>A\<close> and \<open>P\<close> in the heap \<open>h\<close>: a map that is not \<open>nil\<close>, with
  the keys of both, the value of \<open>P\<close> for a key of \<open>P\<close>, and the value of \<open>A\<close> for any other.
\<close>

definition union_right_wins :: "mapheap \<Rightarrow> gomap \<Rightarrow> gomap \<Rightarrow> panic + (gomap \<times> mapheap) \<Rightarrow> bool" where
  "union_right_wins h A P res =
     (\<exists>m h'. res = Inr (m, h') \<and> m \<noteq> None \<and>
        dom (map_get h' m) = dom (map_get h A) \<union> dom (map_get h P) \<and>
        (\<forall>k v. map_get h P k = Some v \<longrightarrow> map_get h' m k = Some v) \<and>
        (\<forall>k. map_get h P k = None \<longrightarrow> map_get h' m k = map_get h A k))"

subsection \<open>Example values\<close>

definition example_heap :: mapheap where
  "example_heap =
     [DAList.update ''PORT'' ''80'' (DAList.update ''ENV'' ''prod'' DAList.empty),
      DAList.update ''PORT'' ''8080'' (DAList.update ''WORKERS'' ''4'' DAList.empty)]"

definition example_process :: "unit Process" where
  "example_process =
     \<lparr>Process_Type = ''web'', Image = (), Command = [], Process_Env = Some 1,
      Process_Labels = None, Process_Exposure = None, Instances = 2, MemoryLimit = 0,
      CPUShares = 0, Nproc = 0\<rparr>"

definition example_app :: "unit App" where
  "example_app =
     \<lparr>ID = ''1'', Release = ''v1'', Name = ''acme'', App_Env = Some 0, App_Labels = None,
      Processes = [example_process]\<rparr>"

definition example_marshal :: "JSONMessage \<Rightarrow> string" where
  "example_marshal v = ''{status:'' @ JSONMessage_Status v @ ''}''"

definition failing_writer :: writer where
  "failing_writer ws b = (if length ws < 1 then None else Some (Error ''sink is full''))"

definition empty_runtime :: runtime where
  "empty_runtime = \<lparr>chans = [], writes = [], warns = []\<rparr>"

section \<open>Properties of merge\<close>

lemma lookup_update_fun: "DAList.lookup (DAList.update k v m) = (DAList.lookup m)(k \<mapsto> v)"
  by (rule ext) (simp add: lookup_update)

lemma lookup_assign_all:
  "distinct (map fst kvs) \<Longrightarrow>
   DAList.lookup (assign_all kvs m) x =
     (case map_of kvs x of None \<Rightarrow> DAList.lookup m x | Some v \<Rightarrow> Some v)"
proof (induction kvs arbitrary: m)
  case Nil
  then show ?case by simp
next
  case (Cons kv kvs)
  obtain k v where kv: "kv = (k, v)" by (cases kv)
  from Cons.prems kv have d: "distinct (map fst kvs)" and nk: "k \<notin> fst ` set kvs" by auto
  have none: "map_of kvs k = None" using nk by (simp add: map_of_eq_None_iff)
  show ?case using Cons.IH [OF d, of "DAList.update k v m"] kv none
    by (simp add: lookup_update split: option.splits)
qed

lemma lookup_assign_all_add:
  "distinct (map fst kvs) \<Longrightarrow> DAList.lookup (assign_all kvs m) = DAList.lookup m ++ map_of kvs"
  by (rule ext) (simp add: lookup_assign_all map_add_def)

lemma merge_entries_Some:
  "a < length h \<Longrightarrow> merge_entries (Some a) kvs h = Inr (h[a := assign_all kvs (h ! a)])"
proof (induction kvs arbitrary: h)
  case Nil
  then show ?case by simp
next
  case (Cons kv kvs)
  obtain k v where kv: "kv = (k, v)" by (cases kv)
  show ?case using Cons.prems Cons.IH [of "h[a := DAList.update k v (h ! a)]"] kv
    by (simp add: map_assign_def)
qed

lemma range_map_distinct: "distinct (map fst (range_map h env))"
  by (simp add: range_map_def split: option.splits)

lemma map_of_range_map: "map_of (range_map h env) = map_get h env"
  by (rule ext) (simp add: range_map_def map_get_def DAList.lookup.rep_eq split: option.splits)

lemma range_map_append: "map_ok h env \<Longrightarrow> range_map (h @ [m]) env = range_map h env"
  by (simp add: range_map_def map_ok_def nth_append split: option.splits)

lemma merge_envs_fresh:
  "\<forall>env \<in> set envs. map_ok h env \<Longrightarrow>
   \<exists>m'. merge_envs (Some (length h)) envs (h @ [m]) = Inr (h @ [m']) \<and>
        DAList.lookup m' = foldl (++) (DAList.lookup m) (map (map_get h) envs)"
proof (induction envs arbitrary: m)
  case Nil
  then show ?case by simp
next
  case (Cons env envs)
  let ?m1 = "assign_all (range_map h env) m"
  have ok: "map_ok h env" and oks: "\<forall>env \<in> set envs. map_ok h env" using Cons.prems by auto
  have step: "merge_entries (Some (length h)) (range_map (h @ [m]) env) (h @ [m]) = Inr (h @ [?m1])"
    by (simp add: merge_entries_Some range_map_append [OF ok])
  have look: "DAList.lookup ?m1 = DAList.lookup m ++ map_get h env"
    by (simp add: lookup_assign_all_add range_map_distinct map_of_range_map)
  from Cons.IH [OF oks, of ?m1] obtain m' where
    "merge_envs (Some (length h)) envs (h @ [?m1]) = Inr (h @ [m'])"
    "DAList.lookup m' = foldl (++) (DAList.lookup ?m1) (map (map_get h) envs)" by blast
  then show ?case using step look by simp
qed

lemma merge_result:
  assumes "\<forall>env \<in> set envs. map_ok h env"
  shows "\<exists>m'. merge envs h = Inr (Some (length h), h @ [m']) \<and>
             DAList.lookup m' = foldl (++) Map.empty (map (map_get h) envs)"
proof -
  from merge_envs_fresh [OF assms, of DAList.empty] obtain m' where
    "merge_envs (Some (length h)) envs (h @ [DAList.empty]) = Inr (h @ [m'])"
    "DAList.lookup m' = foldl (++) (DAList.lookup DAList.empty) (map (map_get h) envs)" by blast
  moreover have "DAList.lookup DAList.empty = (Map.empty :: string \<Rightarrow> string option)"
    by (rule ext) simp
  ultimately show ?thesis by (simp add: merge_def make_map_def)
qed

lemma Env_merge: "Env (Some a) (Some p) h = merge [App_Env a, Process_Env p] h"
  by (simp add: Env_def)

lemma Labels_merge: "Labels (Some a) (Some p) h = merge [App_Labels a, Process_Labels p] h"
  by (simp add: Labels_def)

subsection \<open>Claims about merge\<close>

lemma map_get_new: "map_get (h @ [m']) (Some (length h)) = DAList.lookup m'"
  by (rule ext) (simp add: map_get_def)

text \<open>
  C5. For maps \<open>A\<close> (of the app) and \<open>P\<close> (of the process), \<open>nil\<close> or not, \<open>merge\<close>
  returns a map that is not \<open>nil\<close>, whose keys are the keys of \<open>A\<close> and the keys of \<open>P\<close>;
  a key of \<open>P\<close> has the value of \<open>P\<close>, and a key of \<open>A\<close> alone has the value of \<open>A\<close>.
  \<open>Env\<close> and \<open>Labels\<close> return what \<open>merge\<close> returns for the two fields, and
  \<open>merge(nil, nil)\<close> is a new map without entries.
\<close>

theorem merge_union_right_wins:
  assumes "map_ok h A" and "map_ok h P"
  shows "union_right_wins h A P (merge [A, P] h) \<and>
         Env (Some (a\<lparr>App_Env := A\<rparr>)) (Some (p\<lparr>Process_Env := P\<rparr>)) h = merge [A, P] h \<and>
         Labels (Some (a\<lparr>App_Labels := A\<rparr>)) (Some (p\<lparr>Process_Labels := P\<rparr>)) h = merge [A, P] h \<and>
         merge [None, None] h = Inr (Some (length h), h @ [DAList.empty])"
proof -
  from assms have "\<forall>env \<in> set [A, P]. map_ok h env" by simp
  from merge_result [OF this] obtain m' where
    res: "merge [A, P] h = Inr (Some (length h), h @ [m'])" and
    look: "DAList.lookup m' = map_get h A ++ map_get h P" by auto
  have get: "map_get (h @ [m']) (Some (length h)) = map_get h A ++ map_get h P"
    by (simp add: map_get_new look)
  have "union_right_wins h A P (merge [A, P] h)"
    unfolding union_right_wins_def res
    by (intro exI [of _ "Some (length h)"] exI [of _ "h @ [m']"]) (auto simp: get map_add_def split: option.splits)
  moreover have "merge [None, None] h = Inr (Some (length h), h @ [DAList.empty])"
    by (simp add: merge_def make_map_def range_map_def)
  ultimately show ?thesis by (simp add: Env_merge Labels_merge)
qed

theorem merge_union_right_wins_witness:
  "map_ok example_heap (Some 0) \<and> map_ok example_heap (Some 1) \<and>
   union_right_wins example_heap (Some 0) (Some 1) (merge [Some 0, Some 1] example_heap) \<and>
   Env (Some example_app) (Some example_process) example_heap = merge [Some 0, Some 1] example_heap \<and>
   merge [None, None] example_heap = Inr (Some 2, example_heap @ [DAList.empty]) \<and>
   (case merge [Some 0, Some 1] example_heap of
      Inl q \<Rightarrow> []
    | Inr (m, h') \<Rightarrow> map (map_get h' m) [''ENV'', ''PORT'', ''WORKERS'', ''HOME'']) =
     [Some ''prod'', Some ''8080'', Some ''4'', None]"
proof -
  have ok: "map_ok example_heap (Some 0)" "map_ok example_heap (Some 1)"
    by (simp_all add: map_ok_def example_heap_def)
  have val: "(case merge [Some 0, Some 1] example_heap of
      Inl q \<Rightarrow> []
    | Inr (m, h') \<Rightarrow> map (map_get h' m) [''ENV'', ''PORT'', ''WORKERS'', ''HOME'']) =
     [Some ''prod'', Some ''8080'', Some ''4'', None]"
    by (simp add: merge_def make_map_def range_map_def map_get_def map_assign_def example_heap_def
        DAList.update.rep_eq DAList.empty.rep_eq DAList.lookup.rep_eq)
  have len: "length example_heap = 2" by (simp add: example_heap_def)
  have app: "example_app\<lparr>App_Env := Some 0\<rparr> = example_app"
    and pr: "example_process\<lparr>Process_Env := Some 1\<rparr> = example_process"
    by (simp_all add: example_app_def example_process_def)
  from merge_union_right_wins [OF ok, of example_app example_process] ok len app pr val
  show ?thesis by simp
qed

text \<open>
  C9. For input maps of the heap (or \<open>nil\<close>), \<open>merge\<close> does not panic; the heap after
  the call is the heap before it with one more object, so every map that existed is
  unchanged; the result is the new object, which is none of the inputs, and ranging
  over an input gives the same entries after as before. \<open>Env\<close> and \<open>Labels\<close> are
  \<open>merge\<close> on two fields.
\<close>

theorem merge_frame:
  assumes "\<forall>env \<in> set envs. map_ok h env"
  shows "(\<exists>m'. merge envs h = Inr (Some (length h), h @ [m']) \<and>
            (\<forall>env \<in> set envs. env \<noteq> Some (length h) \<and>
               range_map (h @ [m']) env = range_map h env)) \<and>
         Env (Some a) (Some p) h = merge [App_Env a, Process_Env p] h \<and>
         Labels (Some a) (Some p) h = merge [App_Labels a, Process_Labels p] h"
proof -
  from merge_result [OF assms] obtain m' where
    res: "merge envs h = Inr (Some (length h), h @ [m'])" by blast
  have "env \<noteq> Some (length h) \<and> range_map (h @ [m']) env = range_map h env"
    if "env \<in> set envs" for env
  proof -
    from assms that have ok: "map_ok h env" by blast
    then have "env \<noteq> Some (length h)" by (auto simp: map_ok_def)
    with ok show ?thesis by (simp add: range_map_append)
  qed
  with res have "\<exists>m'. merge envs h = Inr (Some (length h), h @ [m']) \<and>
            (\<forall>env \<in> set envs. env \<noteq> Some (length h) \<and>
               range_map (h @ [m']) env = range_map h env)" by blast
  then show ?thesis by (simp add: Env_merge Labels_merge)
qed

theorem merge_frame_witness:
  "map_ok example_heap (Some 0) \<and> map_ok example_heap None \<and>
   (\<exists>m'. merge [Some 0, None] example_heap = Inr (Some (length example_heap), example_heap @ [m'])) \<and>
   length example_heap = 2"
proof -
  have ok: "map_ok example_heap (Some 0)" "map_ok example_heap None"
    by (simp_all add: map_ok_def example_heap_def)
  then have h: "\<forall>env \<in> set [Some 0, None]. map_ok example_heap env" by simp
  from merge_frame [OF h, of example_app example_process] ok show ?thesis
    by (auto simp: example_heap_def)
qed

section \<open>Properties of status streams\<close>

lemma inv_New: "stream_inv wr r0 (NewJSONMessageStream wr r0)"
  by (simp add: stream_inv_def NewJSONMessageStream_def make_chan_def)

lemma open_New: "\<not> is_closed (NewJSONMessageStream wr r0)"
  by (simp add: is_closed_def NewJSONMessageStream_def make_chan_def)

lemma New_fields:
  "Err (NewJSONMessageStream wr r0) = None"
  "Wait (NewJSONMessageStream wr r0) = length (chans r0)"
  "writes (snd (NewJSONMessageStream wr r0)) = writes r0"
  by (simp_all add: Err_def Wait_def NewJSONMessageStream_def make_chan_def)

lemma ready_iff_closed: "stream_inv wr r0 st \<Longrightarrow> ready (Wait st) (snd st) = is_closed st"
  by (cases st) (auto simp add: stream_inv_def ready_def try_recv_def Wait_def is_closed_def)

lemma Publish_open:
  "stream_inv wr r0 (s, r) \<Longrightarrow> \<not> is_closed (s, r) \<Longrightarrow>
   Publish marshal status (s, r) =
     (wr (writes r) (record_of marshal status),
      (s, r\<lparr>writes := writes r @ [record_of marshal status]\<rparr>))"
  by (auto simp add: stream_inv_def is_closed_def Publish_def try_recv_def Encode_def record_of_def Let_def)

lemma Publish_closed:
  "stream_inv wr r0 (s, r) \<Longrightarrow> is_closed (s, r) \<Longrightarrow>
   Publish marshal status (s, r) =
     (None, (s, r\<lparr>warns := warns r @ [''Publish called on a finalized stream'']\<rparr>))"
  by (auto simp add: stream_inv_def is_closed_def Publish_def try_recv_def)

lemma Done_open:
  "stream_inv wr r0 (s, r) \<Longrightarrow> \<not> is_closed (s, r) \<Longrightarrow>
   Done e (s, r) =
     (Returned (),
      (s\<lparr>err := e\<rparr>, r\<lparr>chans := (chans r)[done_ch s := (chans r ! done_ch s)\<lparr>closed := True\<rparr>]\<rparr>))"
  by (auto simp add: stream_inv_def is_closed_def Done_def close_chan_def)

lemma Done_closed:
  "stream_inv wr r0 (s, r) \<Longrightarrow> is_closed (s, r) \<Longrightarrow>
   Done e (s, r) = (Panicked CloseClosedChannel, (s, r))"
  by (auto simp add: stream_inv_def is_closed_def Done_def close_chan_def)

lemma recv_open:
  "stream_inv wr r0 (s, r) \<Longrightarrow> \<not> is_closed (s, r) \<Longrightarrow> recv (Wait (s, r)) (s, r) = (Blocked, (s, r))"
  by (auto simp add: stream_inv_def is_closed_def recv_def try_recv_def Wait_def)

lemma recv_closed:
  "stream_inv wr r0 (s, r) \<Longrightarrow> is_closed (s, r) \<Longrightarrow> recv (Wait (s, r)) (s, r) = (Returned (), (s, r))"
  by (auto simp add: stream_inv_def is_closed_def recv_def try_recv_def Wait_def)

lemma step_inv: "stream_inv wr r0 st \<Longrightarrow> stream_inv wr r0 (step marshal c st)"
proof (cases st)
  case (Pair s r)
  assume inv: "stream_inv wr r0 st"
  show ?thesis
  proof (cases "is_closed (s, r)")
    case True
    with inv Pair show ?thesis
      by (cases c) (simp_all add: Publish_closed Done_closed recv_closed, auto simp add: stream_inv_def)
  next
    case False
    with inv Pair show ?thesis
      by (cases c) (simp_all add: Publish_open Done_open recv_open, auto simp add: stream_inv_def)
  qed
qed

lemma run_inv: "stream_inv wr r0 st \<Longrightarrow> stream_inv wr r0 (run marshal cs st)"
  by (induction cs arbitrary: st) (simp_all add: step_inv)

lemma run_append: "run marshal (cs @ ds) st = run marshal ds (run marshal cs st)"
  by (induction cs arbitrary: st) simp_all

text \<open>While no call is a Done, the stream stays open.\<close>

lemma step_open:
  assumes "stream_inv wr r0 st" "\<not> is_closed st" "\<not> is_Done c"
  shows "\<not> is_closed (step marshal c st) \<and> Err (step marshal c st) = Err st \<and>
         writes (snd (step marshal c st)) = writes (snd st) @ map (record_of marshal) (published [c])"
proof (cases st)
  case (Pair s r)
  with assms show ?thesis
    by (cases c) (simp_all add: Publish_open recv_open, auto simp add: is_closed_def Err_def stream_inv_def)
qed

lemma run_open:
  assumes "stream_inv wr r0 st" "\<not> is_closed st" "\<not> list_ex is_Done cs"
  shows "\<not> is_closed (run marshal cs st) \<and> Err (run marshal cs st) = Err st \<and>
         writes (snd (run marshal cs st)) = writes (snd st) @ map (record_of marshal) (published cs)"
  using assms
proof (induction cs arbitrary: st)
  case Nil
  then show ?case by simp
next
  case (Cons c cs)
  from Cons.prems have nd: "\<not> is_Done c" and nds: "\<not> list_ex is_Done cs" by simp_all
  note s = step_open [OF Cons.prems(1,2) nd, of marshal]
  have pub: "published (c # cs) = published [c] @ published cs" by (cases c) simp_all
  from Cons.IH [OF step_inv [OF Cons.prems(1)] _ nds, of marshal c] s
  show ?case by (simp add: pub del: published.simps)
qed

text \<open>Once closed, the stream stays closed, and keeps its outcome and what the sink got.\<close>

lemma step_closed:
  assumes "stream_inv wr r0 st" "is_closed st"
  shows "is_closed (step marshal c st) \<and> Err (step marshal c st) = Err st \<and>
         writes (snd (step marshal c st)) = writes (snd st)"
proof (cases st)
  case (Pair s r)
  with assms show ?thesis
    by (cases c) (simp_all add: Publish_closed Done_closed recv_closed, auto simp add: is_closed_def Err_def stream_inv_def)
qed

lemma run_closed:
  assumes "stream_inv wr r0 st" "is_closed st"
  shows "is_closed (run marshal cs st) \<and> Err (run marshal cs st) = Err st \<and>
         writes (snd (run marshal cs st)) = writes (snd st)"
  using assms
proof (induction cs arbitrary: st)
  case Nil
  then show ?case by simp
next
  case (Cons c cs)
  from step_closed [OF Cons.prems, of marshal c] Cons.IH [OF step_inv [OF Cons.prems(1)], of marshal c]
  show ?case by simp
qed

lemma Done_first:
  assumes "stream_inv wr r0 st" "\<not> is_closed st"
  shows "fst (Done e st) = Returned () \<and> is_closed (snd (Done e st)) \<and> Err (snd (Done e st)) = e \<and>
         writes (snd (snd (Done e st))) = writes (snd st)"
proof (cases st)
  case (Pair s r)
  with assms show ?thesis
    by (simp add: Done_open) (auto simp add: is_closed_def Err_def stream_inv_def)
qed

lemma run_Wait: "stream_inv wr r0 st \<Longrightarrow> Wait (run marshal cs st) = length (chans r0)"
  using run_inv [of wr r0 st marshal cs] by (cases "run marshal cs st") (simp add: stream_inv_def Wait_def)

text \<open>A history with a Done call leaves the stream closed.\<close>

lemma run_with_Done:
  assumes "stream_inv wr r0 st" "list_ex is_Done cs"
  shows "is_closed (run marshal cs st)"
  using assms
proof (induction cs arbitrary: st)
  case Nil
  then show ?case by simp
next
  case (Cons c cs)
  note inv' = step_inv [OF Cons.prems(1), of marshal c]
  show ?case
  proof (cases "is_Done c")
    case True
    then obtain e where c: "c = CallDone e" by (cases c) simp_all
    have "is_closed (step marshal c st)"
    proof (cases "is_closed st")
      case True
      then show ?thesis using step_closed [OF Cons.prems(1)] by simp
    next
      case False
      then show ?thesis using Done_first [OF Cons.prems(1)] c by simp
    qed
    then show ?thesis using run_closed [OF inv'] by simp
  next
    case False
    with Cons.prems have "list_ex is_Done cs" by simp
    then show ?thesis using Cons.IH [OF inv'] by simp
  qed
qed

lemma inv_run_New: "stream_inv wr r0 (run marshal cs (NewJSONMessageStream wr r0))"
  by (rule run_inv [OF inv_New])

lemma closed_after_Done:
  "is_closed (run marshal (cs1 @ CallDone e # cs2) (NewJSONMessageStream wr r0))"
  by (rule run_with_Done [OF inv_New]) simp

subsection \<open>Claims about status streams\<close>

text \<open>
  C1. Let \<open>(s, r)\<close> be a stream made by \<open>NewJSONMessageStream\<close> and the runtime, after
  any history \<open>cs\<close> of calls. If \<open>Done\<close> has been called in \<open>cs\<close>, \<open>Publish\<close> returns
  \<open>nil\<close> and changes nothing but the log of warnings: the sink gets no write. If not,
  \<open>Publish\<close> makes one write, of the record of the status, and returns the error of
  that write.
\<close>

theorem Publish_open_or_finalized:
  assumes "run marshal cs (NewJSONMessageStream wr r0) = (s, r)"
  shows "Publish marshal status (s, r) =
           (if list_ex is_Done cs
            then (None, (s, r\<lparr>warns := warns r @ [''Publish called on a finalized stream'']\<rparr>))
            else (wr (writes r) (record_of marshal status),
                  (s, r\<lparr>writes := writes r @ [record_of marshal status]\<rparr>)))"
proof -
  have inv: "stream_inv wr r0 (s, r)" using inv_run_New [of wr r0 marshal cs] assms by simp
  show ?thesis
  proof (cases "list_ex is_Done cs")
    case True
    have "is_closed (run marshal cs (NewJSONMessageStream wr r0))"
      by (rule run_with_Done [OF inv_New True])
    then have "is_closed (s, r)" using assms by simp
    with True show ?thesis by (simp add: Publish_closed [OF inv])
  next
    case False
    have "\<not> is_closed (run marshal cs (NewJSONMessageStream wr r0))"
      using run_open [OF inv_New open_New False] by simp
    then have "\<not> is_closed (s, r)" using assms by simp
    with False show ?thesis by (simp add: Publish_open [OF inv])
  qed
qed

theorem Publish_open_or_finalized_witness:
  "run example_marshal [CallPublish \<lparr>Message = ''creating web''\<rparr>, CallDone None]
     (NewJSONMessageStream failing_writer empty_runtime) =
     (\<lparr>Mutex = False, done_ch = 0, err = None, w = failing_writer\<rparr>,
      \<lparr>chans = [\<lparr>cap = 1, buf = 0, closed = True\<rparr>],
       writes = [''{status:creating web}'' @ [CHR 0x0A]], warns = []\<rparr>) \<and>
   Publish example_marshal \<lparr>Message = ''late''\<rparr>
     (\<lparr>Mutex = False, done_ch = 0, err = None, w = failing_writer\<rparr>,
      \<lparr>chans = [\<lparr>cap = 1, buf = 0, closed = True\<rparr>],
       writes = [''{status:creating web}'' @ [CHR 0x0A]], warns = []\<rparr>) =
     (None,
      (\<lparr>Mutex = False, done_ch = 0, err = None, w = failing_writer\<rparr>,
       \<lparr>chans = [\<lparr>cap = 1, buf = 0, closed = True\<rparr>],
        writes = [''{status:creating web}'' @ [CHR 0x0A]],
        warns = [''Publish called on a finalized stream'']\<rparr>)) \<and>
   run example_marshal [CallPublish \<lparr>Message = ''creating web''\<rparr>]
     (NewJSONMessageStream failing_writer empty_runtime) =
     (\<lparr>Mutex = False, done_ch = 0, err = None, w = failing_writer\<rparr>,
      \<lparr>chans = [\<lparr>cap = 1, buf = 0, closed = False\<rparr>],
       writes = [''{status:creating web}'' @ [CHR 0x0A]], warns = []\<rparr>) \<and>
   Publish example_marshal \<lparr>Message = ''running''\<rparr>
     (\<lparr>Mutex = False, done_ch = 0, err = None, w = failing_writer\<rparr>,
      \<lparr>chans = [\<lparr>cap = 1, buf = 0, closed = False\<rparr>],
       writes = [''{status:creating web}'' @ [CHR 0x0A]], warns = []\<rparr>) =
     (Some (Error ''sink is full''),
      (\<lparr>Mutex = False, done_ch = 0, err = None, w = failing_writer\<rparr>,
       \<lparr>chans = [\<lparr>cap = 1, buf = 0, closed = False\<rparr>],
        writes = [''{status:creating web}'' @ [CHR 0x0A], ''{status:running}'' @ [CHR 0x0A]],
        warns = []\<rparr>))"
proof -
  have h1: "run example_marshal [CallPublish \<lparr>Message = ''creating web''\<rparr>, CallDone None]
     (NewJSONMessageStream failing_writer empty_runtime) =
     (\<lparr>Mutex = False, done_ch = 0, err = None, w = failing_writer\<rparr>,
      \<lparr>chans = [\<lparr>cap = 1, buf = 0, closed = True\<rparr>],
       writes = [''{status:creating web}'' @ [CHR 0x0A]], warns = []\<rparr>)"
    by (simp add: example_marshal_def empty_runtime_def NewJSONMessageStream_def make_chan_def
        Publish_def Done_def try_recv_def close_chan_def Encode_def Let_def)
  have h2: "run example_marshal [CallPublish \<lparr>Message = ''creating web''\<rparr>]
     (NewJSONMessageStream failing_writer empty_runtime) =
     (\<lparr>Mutex = False, done_ch = 0, err = None, w = failing_writer\<rparr>,
      \<lparr>chans = [\<lparr>cap = 1, buf = 0, closed = False\<rparr>],
       writes = [''{status:creating web}'' @ [CHR 0x0A]], warns = []\<rparr>)"
    by (simp add: example_marshal_def empty_runtime_def NewJSONMessageStream_def make_chan_def
        Publish_def try_recv_def Encode_def Let_def)
  from Publish_open_or_finalized [OF h1, of "\<lparr>Message = ''late''\<rparr>"]
    Publish_open_or_finalized [OF h2, of "\<lparr>Message = ''running''\<rparr>"] h1 h2
  show ?thesis by (simp add: record_of_def example_marshal_def failing_writer_def)
qed

lemma Done_in_two_steps:
  "Done e st =
     (case Done_close st of
        (Returned u, mid) \<Rightarrow> Done_assign e mid
      | (Panicked p, st') \<Rightarrow> (Panicked p, st')
      | (Blocked, st') \<Rightarrow> (Blocked, st'))"
  by (cases st) (simp add: Done_def Done_close_def Done_assign_def Let_def split: sum.splits)

lemma Done_close_open:
  "stream_inv wr r0 (s, r) \<Longrightarrow> \<not> is_closed (s, r) \<Longrightarrow>
   Done_close (s, r) =
     (Returned (),
      (s\<lparr>Mutex := True\<rparr>, r\<lparr>chans := (chans r)[done_ch s := (chans r ! done_ch s)\<lparr>closed := True\<rparr>]\<rparr>))"
  by (auto simp add: stream_inv_def is_closed_def Done_close_def close_chan_def)

text \<open>
  C2. On a stream made by \<open>NewJSONMessageStream\<close>, let \<open>Done e\<close> be called after calls
  \<open>cs1\<close> that are not \<open>Done\<close>. Its first part returns with the channel of \<open>Wait\<close>
  ready (a waiter's receive on it returns) while \<open>Err\<close> is still \<open>nil\<close>: the channel is
  closed before the outcome is stored. \<open>Done\<close> is its second part run from there, and
  only after that is \<open>Err\<close> equal to \<open>e\<close>.
\<close>

theorem Done_ready_before_outcome:
  assumes "\<not> list_ex is_Done cs1"
  shows "fst (Done_close (run marshal cs1 (NewJSONMessageStream wr r0))) = Returned () \<and>
         ready (Wait (snd (Done_close (run marshal cs1 (NewJSONMessageStream wr r0)))))
           (snd (snd (Done_close (run marshal cs1 (NewJSONMessageStream wr r0))))) \<and>
         recv (Wait (snd (Done_close (run marshal cs1 (NewJSONMessageStream wr r0)))))
           (snd (Done_close (run marshal cs1 (NewJSONMessageStream wr r0)))) =
           (Returned (), snd (Done_close (run marshal cs1 (NewJSONMessageStream wr r0)))) \<and>
         Err (snd (Done_close (run marshal cs1 (NewJSONMessageStream wr r0)))) = None \<and>
         Done e (run marshal cs1 (NewJSONMessageStream wr r0)) =
           Done_assign e (snd (Done_close (run marshal cs1 (NewJSONMessageStream wr r0)))) \<and>
         Err (snd (Done e (run marshal cs1 (NewJSONMessageStream wr r0)))) = e"
proof -
  let ?st1 = "run marshal cs1 (NewJSONMessageStream wr r0)"
  obtain s r where st1: "?st1 = (s, r)" by (cases ?st1)
  have inv1: "stream_inv wr r0 (s, r)" using inv_run_New [of wr r0 marshal cs1] st1 by simp
  note o = run_open [OF inv_New open_New assms, of marshal wr r0]
  have open1: "\<not> is_closed (s, r)" using o st1 by simp
  have err1: "err s = None" using o st1 by (simp add: Err_def New_fields [unfolded Err_def])
  note dc = Done_close_open [OF inv1 open1]
  have i: "done_ch s < length (chans r)" "buf (chans r ! done_ch s) = 0"
    using inv1 by (auto simp: stream_inv_def)
  have "fst (Done_close (s, r)) = Returned ()" by (simp add: dc)
  moreover have "ready (Wait (snd (Done_close (s, r)))) (snd (snd (Done_close (s, r))))"
    using i by (simp add: dc Wait_def ready_def try_recv_def)
  moreover have "recv (Wait (snd (Done_close (s, r)))) (snd (Done_close (s, r))) =
      (Returned (), snd (Done_close (s, r)))"
    using i by (simp add: dc Wait_def recv_def try_recv_def)
  moreover have "Err (snd (Done_close (s, r))) = None" using err1 by (simp add: dc Err_def)
  moreover have "Done e (s, r) = Done_assign e (snd (Done_close (s, r)))"
    by (simp add: Done_in_two_steps dc)
  moreover have "Err (snd (Done e (s, r))) = e"
    using Done_first [OF inv1 open1] by simp
  ultimately show ?thesis by (simp only: st1) 
qed

theorem Done_ready_before_outcome_witness:
  "\<not> list_ex is_Done [CallPublish \<lparr>Message = ''creating web''\<rparr>, CallWait] \<and>
   snd (Done_close (run example_marshal [CallPublish \<lparr>Message = ''creating web''\<rparr>, CallWait]
     (NewJSONMessageStream failing_writer empty_runtime))) =
     (\<lparr>Mutex = True, done_ch = 0, err = None, w = failing_writer\<rparr>,
      \<lparr>chans = [\<lparr>cap = 1, buf = 0, closed = True\<rparr>],
       writes = [''{status:creating web}'' @ [CHR 0x0A]], warns = []\<rparr>) \<and>
   ready 0 \<lparr>chans = [\<lparr>cap = 1, buf = 0, closed = True\<rparr>],
       writes = [''{status:creating web}'' @ [CHR 0x0A]], warns = []\<rparr> \<and>
   Err (snd (Done_close (run example_marshal [CallPublish \<lparr>Message = ''creating web''\<rparr>, CallWait]
     (NewJSONMessageStream failing_writer empty_runtime)))) = None \<and>
   Err (snd (Done (Some (Error ''image pull failed''))
     (run example_marshal [CallPublish \<lparr>Message = ''creating web''\<rparr>, CallWait]
       (NewJSONMessageStream failing_writer empty_runtime)))) = Some (Error ''image pull failed'')"
proof -
  have h: "\<not> list_ex is_Done [CallPublish \<lparr>Message = ''creating web''\<rparr>, CallWait]" by simp
  have mid: "snd (Done_close (run example_marshal [CallPublish \<lparr>Message = ''creating web''\<rparr>, CallWait]
     (NewJSONMessageStream failing_writer empty_runtime))) =
     (\<lparr>Mutex = True, done_ch = 0, err = None, w = failing_writer\<rparr>,
      \<lparr>chans = [\<lparr>cap = 1, buf = 0, closed = True\<rparr>],
       writes = [''{status:creating web}'' @ [CHR 0x0A]], warns = []\<rparr>)"
    by (simp add: example_marshal_def empty_runtime_def NewJSONMessageStream_def make_chan_def
        Publish_def Done_close_def try_recv_def close_chan_def Encode_def Let_def)
  note t = Done_ready_before_outcome [OF h, of example_marshal failing_writer empty_runtime
      "Some (Error ''image pull failed'')"]
  from t have r: "ready (Wait (snd (Done_close (run example_marshal [CallPublish \<lparr>Message = ''creating web''\<rparr>, CallWait]
     (NewJSONMessageStream failing_writer empty_runtime)))))
     (snd (snd (Done_close (run example_marshal [CallPublish \<lparr>Message = ''creating web''\<rparr>, CallWait]
     (NewJSONMessageStream failing_writer empty_runtime)))))" by blast
  have r': "ready 0 \<lparr>chans = [\<lparr>cap = 1, buf = 0, closed = True\<rparr>],
       writes = [''{status:creating web}'' @ [CHR 0x0A]], warns = []\<rparr>"
    using r unfolding mid by (simp add: Wait_def)
  from t h mid r' show ?thesis by blast
qed

text \<open>
  C3. On a stream made by \<open>NewJSONMessageStream\<close>, \<open>Wait\<close> returns one and the same
  channel before and after \<open>Done\<close>, so a waiter holds the same handle whenever it asked
  for it. While no \<open>Done\<close> has been called the handle is not ready. Once \<open>Done\<close> has
  been called it is ready after any further calls (among them the receives of any
  number of waiters), and a receive on it returns at once and leaves it ready.
\<close>

theorem Wait_ready_sticky:
  "Wait (run marshal cs1 (NewJSONMessageStream wr r0)) = Wait (NewJSONMessageStream wr r0) \<and>
   Wait (run marshal (cs1 @ CallDone e # cs2) (NewJSONMessageStream wr r0)) =
     Wait (NewJSONMessageStream wr r0) \<and>
   (\<not> list_ex is_Done cs1 \<longrightarrow>
      \<not> ready (Wait (NewJSONMessageStream wr r0)) (snd (run marshal cs1 (NewJSONMessageStream wr r0)))) \<and>
   ready (Wait (NewJSONMessageStream wr r0))
     (snd (run marshal (cs1 @ CallDone e # cs2) (NewJSONMessageStream wr r0))) \<and>
   recv (Wait (NewJSONMessageStream wr r0))
     (run marshal (cs1 @ CallDone e # cs2) (NewJSONMessageStream wr r0)) =
     (Returned (), run marshal (cs1 @ CallDone e # cs2) (NewJSONMessageStream wr r0))"
proof -
  let ?init = "NewJSONMessageStream wr r0"
  let ?st1 = "run marshal cs1 ?init"
  let ?st2 = "run marshal (cs1 @ CallDone e # cs2) ?init"
  have w0: "Wait ?init = length (chans r0)" by (rule New_fields)
  have w1: "Wait ?st1 = Wait ?init" and w2: "Wait ?st2 = Wait ?init"
    by (simp_all only: run_Wait [OF inv_New] w0)
  have inv2: "stream_inv wr r0 ?st2" by (rule inv_run_New)
  have cl2: "is_closed ?st2" by (rule closed_after_Done)
  have r2: "ready (Wait ?init) (snd ?st2)"
    using ready_iff_closed [OF inv2] cl2 w2 by simp
  have rc: "recv (Wait ?init) ?st2 = (Returned (), ?st2)"
  proof (cases ?st2)
    case (Pair s r)
    with inv2 cl2 have "recv (Wait (s, r)) (s, r) = (Returned (), (s, r))"
      by (simp add: recv_closed)
    with w2 Pair show ?thesis by simp
  qed
  have nr: "\<not> ready (Wait ?init) (snd ?st1)" if nd: "\<not> list_ex is_Done cs1"
  proof -
    have "\<not> is_closed ?st1" using run_open [OF inv_New open_New nd] by simp
    moreover have "ready (Wait ?st1) (snd ?st1) = is_closed ?st1"
      by (rule ready_iff_closed [OF inv_run_New])
    ultimately show ?thesis using w1 by simp
  qed
  from w1 w2 nr r2 rc show ?thesis by blast
qed

theorem Wait_ready_sticky_witness:
  "\<not> list_ex is_Done [CallWait, CallRecv] \<and>
   \<not> ready (Wait (NewJSONMessageStream failing_writer empty_runtime))
       (snd (run example_marshal [CallWait, CallRecv] (NewJSONMessageStream failing_writer empty_runtime))) \<and>
   ready (Wait (NewJSONMessageStream failing_writer empty_runtime))
     (snd (run example_marshal ([CallWait, CallRecv] @ CallDone None # [CallRecv, CallWait, CallRecv])
        (NewJSONMessageStream failing_writer empty_runtime)))"
proof -
  have h: "\<not> list_ex is_Done [CallWait, CallRecv]" by simp
  from Wait_ready_sticky [of example_marshal "[CallWait, CallRecv]" failing_writer empty_runtime
      None "[CallRecv, CallWait, CallRecv]"] h
  show ?thesis by blast
qed



lemma published_Publish: "published (map CallPublish sts) = sts"
  by (induction sts) simp_all

lemma no_Done_Publish: "\<not> list_ex is_Done (map CallPublish sts)"
  by (induction sts) simp_all

lemma writes_before_and_after_Done:
  assumes "\<not> list_ex is_Done cs1"
  shows "writes (snd (run marshal cs1 (NewJSONMessageStream wr r0))) =
           writes r0 @ map (record_of marshal) (published cs1)"
    and "\<not> is_closed (run marshal cs1 (NewJSONMessageStream wr r0))"
    and "writes (snd (run marshal (cs1 @ CallDone e # cs2) (NewJSONMessageStream wr r0))) =
           writes r0 @ map (record_of marshal) (published cs1)"
proof -
  let ?init = "NewJSONMessageStream wr r0"
  let ?st1 = "run marshal cs1 ?init"
  have inv1: "stream_inv wr r0 ?st1" by (rule inv_run_New)
  note o = run_open [OF inv_New open_New assms, of marshal]
  show w1: "writes (snd ?st1) = writes r0 @ map (record_of marshal) (published cs1)"
    using o by (simp add: New_fields)
  show open1: "\<not> is_closed ?st1" using o by simp
  note d = Done_first [OF inv1 open1, of e]
  have invd: "stream_inv wr r0 (snd (Done e ?st1))"
    using step_inv [OF inv1, of marshal "CallDone e"] by simp
  have "writes (snd (run marshal cs2 (snd (Done e ?st1)))) = writes (snd (snd (Done e ?st1)))"
    using run_closed [OF invd] d by simp
  then show "writes (snd (run marshal (cs1 @ CallDone e # cs2) ?init)) =
           writes r0 @ map (record_of marshal) (published cs1)"
    using d w1 by (simp add: run_append)
qed

text \<open>
  C7. On a stream made by \<open>NewJSONMessageStream\<close>, after calls \<open>cs1\<close> none of which is
  \<open>Done\<close>, the sink has got one write for each \<open>Publish\<close> of \<open>cs1\<close>, in the order of the
  calls, and the stream is still open. A \<open>Done\<close> after them, and any calls after it,
  add nothing. In particular \<open>N\<close> calls of \<open>Publish\<close> and then \<open>Done\<close> leave exactly
  their \<open>N\<close> records.
\<close>

theorem Publish_records_in_order:
  assumes "\<not> list_ex is_Done cs1"
  shows "writes (snd (run marshal cs1 (NewJSONMessageStream wr r0))) =
           writes r0 @ map (record_of marshal) (published cs1) \<and>
         \<not> ready (Wait (run marshal cs1 (NewJSONMessageStream wr r0)))
             (snd (run marshal cs1 (NewJSONMessageStream wr r0))) \<and>
         writes (snd (run marshal (cs1 @ CallDone e # cs2) (NewJSONMessageStream wr r0))) =
           writes r0 @ map (record_of marshal) (published cs1) \<and>
         writes (snd (run marshal (map CallPublish sts @ [CallDone e]) (NewJSONMessageStream wr r0))) =
           writes r0 @ map (record_of marshal) sts"
proof -
  let ?st1 = "run marshal cs1 (NewJSONMessageStream wr r0)"
  note a = writes_before_and_after_Done [OF assms]
  have "ready (Wait ?st1) (snd ?st1) = is_closed ?st1"
    by (rule ready_iff_closed [OF inv_run_New])
  then have nr: "\<not> ready (Wait ?st1) (snd ?st1)" using a(2) by simp
  have "writes (snd (run marshal (map CallPublish sts @ CallDone e # []) (NewJSONMessageStream wr r0))) =
           writes r0 @ map (record_of marshal) (published (map CallPublish sts))"
    by (rule writes_before_and_after_Done(3) [OF no_Done_Publish])
  then have p: "writes (snd (run marshal (map CallPublish sts @ [CallDone e]) (NewJSONMessageStream wr r0))) =
           writes r0 @ map (record_of marshal) sts"
    by (simp only: published_Publish)
  from a(1) nr a(3) p show ?thesis by blast
qed

theorem Publish_records_in_order_witness:
  "\<not> list_ex is_Done [CallPublish \<lparr>Message = ''creating web''\<rparr>, CallPublish \<lparr>Message = ''web: 2/2 running''\<rparr>] \<and>
   writes (snd (run example_marshal
       ([CallPublish \<lparr>Message = ''creating web''\<rparr>, CallPublish \<lparr>Message = ''web: 2/2 running''\<rparr>] @
        CallDone None # [CallPublish \<lparr>Message = ''late''\<rparr>])
       (NewJSONMessageStream failing_writer empty_runtime))) =
     [''{status:creating web}'' @ [CHR 0x0A], ''{status:web: 2/2 running}'' @ [CHR 0x0A]]"
proof -
  have h: "\<not> list_ex is_Done [CallPublish \<lparr>Message = ''creating web''\<rparr>, CallPublish \<lparr>Message = ''web: 2/2 running''\<rparr>]"
    by simp
  have v: "writes empty_runtime @ map (record_of example_marshal)
      (published [CallPublish \<lparr>Message = ''creating web''\<rparr>, CallPublish \<lparr>Message = ''web: 2/2 running''\<rparr>]) =
     [''{status:creating web}'' @ [CHR 0x0A], ''{status:web: 2/2 running}'' @ [CHR 0x0A]]"
    by (simp add: empty_runtime_def record_of_def example_marshal_def)
  from Publish_records_in_order [OF h, of example_marshal failing_writer empty_runtime None
      "[CallPublish \<lparr>Message = ''late''\<rparr>]"]
  have "writes (snd (run example_marshal
       ([CallPublish \<lparr>Message = ''creating web''\<rparr>, CallPublish \<lparr>Message = ''web: 2/2 running''\<rparr>] @
        CallDone None # [CallPublish \<lparr>Message = ''late''\<rparr>])
       (NewJSONMessageStream failing_writer empty_runtime))) =
     writes empty_runtime @ map (record_of example_marshal)
      (published [CallPublish \<lparr>Message = ''creating web''\<rparr>, CallPublish \<lparr>Message = ''web: 2/2 running''\<rparr>])"
    by blast
  then have "writes (snd (run example_marshal
       ([CallPublish \<lparr>Message = ''creating web''\<rparr>, CallPublish \<lparr>Message = ''web: 2/2 running''\<rparr>] @
        CallDone None # [CallPublish \<lparr>Message = ''late''\<rparr>])
       (NewJSONMessageStream failing_writer empty_runtime))) =
     [''{status:creating web}'' @ [CHR 0x0A], ''{status:web: 2/2 running}'' @ [CHR 0x0A]]"
    by (rule trans [OF _ v])
  with h show ?thesis by (rule conjI)
qed

text \<open>
  C10. A stream made by \<open>NewJSONMessageStream\<close> starts open: \<open>Err\<close> is \<open>nil\<close> and the
  channel of \<open>Wait\<close>, a new channel, is not ready; this stays so while no \<open>Done\<close> is
  called. After any calls, \<open>Wait\<close> returns the channel it returned at first.
\<close>

theorem New_stream_starts_open:
  "Err (NewJSONMessageStream wr r0) = None \<and>
   \<not> ready (Wait (NewJSONMessageStream wr r0)) (snd (NewJSONMessageStream wr r0)) \<and>
   Wait (NewJSONMessageStream wr r0) = length (chans r0) \<and>
   Wait (run marshal cs (NewJSONMessageStream wr r0)) = Wait (NewJSONMessageStream wr r0) \<and>
   (\<not> list_ex is_Done cs \<longrightarrow>
      Err (run marshal cs (NewJSONMessageStream wr r0)) = None \<and>
      \<not> ready (Wait (run marshal cs (NewJSONMessageStream wr r0)))
          (snd (run marshal cs (NewJSONMessageStream wr r0))))"
proof -
  let ?init = "NewJSONMessageStream wr r0"
  let ?st = "run marshal cs ?init"
  have e0: "Err ?init = None" and w0: "Wait ?init = length (chans r0)" by (rule New_fields)+
  have nr0: "\<not> ready (Wait ?init) (snd ?init)"
    using ready_iff_closed [OF inv_New] open_New by simp
  have w1: "Wait ?st = Wait ?init" by (simp only: run_Wait [OF inv_New] w0)
  have op: "Err ?st = None \<and> \<not> ready (Wait ?st) (snd ?st)" if nd: "\<not> list_ex is_Done cs"
  proof -
    from run_open [OF inv_New open_New nd, of marshal]
    have "\<not> is_closed ?st" and "Err ?st = Err ?init" by simp_all
    moreover have "ready (Wait ?st) (snd ?st) = is_closed ?st"
      by (rule ready_iff_closed [OF inv_run_New])
    ultimately show ?thesis using e0 by simp
  qed
  from e0 nr0 w0 w1 op show ?thesis by blast
qed

theorem New_stream_starts_open_witness:
  "\<not> list_ex is_Done [CallPublish \<lparr>Message = ''creating web''\<rparr>, CallWait, CallErr] \<and>
   Err (run example_marshal [CallPublish \<lparr>Message = ''creating web''\<rparr>, CallWait, CallErr]
          (NewJSONMessageStream failing_writer empty_runtime)) = None \<and>
   \<not> ready (Wait (run example_marshal [CallPublish \<lparr>Message = ''creating web''\<rparr>, CallWait, CallErr]
          (NewJSONMessageStream failing_writer empty_runtime)))
        (snd (run example_marshal [CallPublish \<lparr>Message = ''creating web''\<rparr>, CallWait, CallErr]
          (NewJSONMessageStream failing_writer empty_runtime))) \<and>
   Wait (NewJSONMessageStream failing_writer empty_runtime) = 0"
proof -
  have h: "\<not> list_ex is_Done [CallPublish \<lparr>Message = ''creating web''\<rparr>, CallWait, CallErr]" by simp
  have l: "length (chans empty_runtime) = 0" by (simp add: empty_runtime_def)
  from New_stream_starts_open [of failing_writer empty_runtime example_marshal
      "[CallPublish \<lparr>Message = ''creating web''\<rparr>, CallWait, CallErr]"] h l
  show ?thesis by auto
qed

end
